theory Spec2Isabelle
  imports Complex_Main "HOL-Library.Word" "HOL-Library.AList"
begin

section \<open>Buffers of PCM16 audio\<close>

text \<open>
  A Node \<open>Buffer\<close> is a sequence of bytes. \<open>readInt16LE\<close> and \<open>writeInt16LE\<close>
  throw a RangeError when the two bytes at the offset are not both inside the buffer, and
  \<open>writeInt16LE\<close> also when the value is not a signed 16-bit integer. Exceptions are values
  here: \<open>Inl\<close> of the error.
\<close>

type_synonym byte = "8 word"
type_synonym buffer = "byte list"

datatype js_error = RangeError | TypeError | NotOpenError

definition int16_of_bytes :: "byte \<Rightarrow> byte \<Rightarrow> int" where
  \<comment> \<open>\<open>val = first + last * 2 ** 8; return val | (val & 2 ** 15) * 0x1fffe\<close>: sign extension.\<close>
  "int16_of_bytes lo hi =
     (let val = uint lo + uint hi * 2 ^ 8
      in if 2 ^ 15 \<le> val then val - 2 ^ 16 else val)"

definition readInt16LE :: "buffer \<Rightarrow> nat \<Rightarrow> js_error + int" where
  "readInt16LE buf offset =
     (if offset + 1 < length buf
      then Inr (int16_of_bytes (buf ! offset) (buf ! (offset + 1)))
      else Inl RangeError)"

definition writeInt16LE :: "buffer \<Rightarrow> int \<Rightarrow> nat \<Rightarrow> js_error + buffer" where
  \<comment> \<open>\<open>buf[offset++] = value; buf[offset++] = value >>> 8\<close>, each store truncated to a byte.\<close>
  "writeInt16LE buf v offset =
     (if v < - 32768 \<or> 32767 < v then Inl RangeError
      else if offset + 1 < length buf
      then Inr (buf[offset := of_int v, offset + 1 := of_int (v div 256)])
      else Inl RangeError)"

definition allocUnsafe :: "(nat \<Rightarrow> byte) \<Rightarrow> nat \<Rightarrow> buffer" where
  \<comment> \<open>\<open>Buffer.allocUnsafe(n)\<close> does not clear the memory: byte \<open>k\<close> holds whatever the
      allocator's pool held, \<open>pool k\<close>, which the caller does not control.\<close>
  "allocUnsafe pool n = map pool [0..<n]"

definition samples :: "buffer \<Rightarrow> int list" where
  \<comment> \<open>The complete PCM16 samples of a buffer; a trailing odd byte belongs to no sample.\<close>
  "samples buf =
     map (\<lambda>k. int16_of_bytes (buf ! (2 * k)) (buf ! (2 * k + 1))) [0..<length buf div 2]"

section \<open>The resamplers\<close>

text \<open>
  The output buffer is carried through the loop together with two ghost fields that the
  source does not have: the byte offsets stored so far, in order, and the branch each
  iteration took. They record what the loop did and do not influence it.
\<close>

datatype branch =
    Decimate | DecimateFallback
  | HoldLast | HoldLastSkipped | InterpolateFallback | Interpolate

record out_state =
  outputBuffer :: buffer
  writes :: "nat list"
  taken :: "branch list"

definition store16 :: "branch \<Rightarrow> int \<Rightarrow> nat \<Rightarrow> out_state \<Rightarrow> js_error + out_state" where
  \<comment> \<open>\<open>outputBuffer.writeInt16LE(v, offset)\<close> in the branch \<open>b\<close>.\<close>
  "store16 b v offset st =
     (case writeInt16LE (outputBuffer st) v offset of
        Inl e \<Rightarrow> Inl e
      | Inr buf \<Rightarrow> Inr \<lparr>outputBuffer = buf,
                       writes = writes st @ [offset, offset + 1],
                       taken = taken st @ [b]\<rparr>)"

definition down_body :: "buffer \<Rightarrow> nat \<Rightarrow> out_state \<Rightarrow> js_error + out_state" where
  \<comment> \<open>One iteration of the loop of \<open>resample24kHzTo8kHz\<close>. The buffer has at least two
      bytes here, so \<open>inputBuffer.length - 2\<close> is not negative.\<close>
  "down_body inputBuffer i st =
     (let inputIndex = i * 3;
          inputSampleIndex = inputIndex * 2
      in if length inputBuffer \<le> inputSampleIndex + 1 then
           (let lastSampleIndex = max 0 ((length inputBuffer - 2) div 2 * 2)
            in case readInt16LE inputBuffer lastSampleIndex of
                 Inl e \<Rightarrow> Inl e
               | Inr lastSample \<Rightarrow> store16 DecimateFallback lastSample (i * 2) st)
         else
           (case readInt16LE inputBuffer inputSampleIndex of
              Inl e \<Rightarrow> Inl e
            | Inr sample \<Rightarrow> store16 Decimate sample (i * 2) st))"

function down_loop :: "buffer \<Rightarrow> nat \<Rightarrow> nat \<Rightarrow> out_state \<Rightarrow> js_error + out_state" where
  "down_loop inputBuffer outputSamples i st =
     (if i < outputSamples then
        (case down_body inputBuffer i st of
           Inl e \<Rightarrow> Inl e
         | Inr st' \<Rightarrow> down_loop inputBuffer outputSamples (i + 1) st')
      else Inr st)"
  by pat_completeness auto
termination
  by (relation "measure (\<lambda>(inputBuffer, outputSamples, i, st). outputSamples - i)") auto

definition resample24kHzTo8kHz_run :: "(nat \<Rightarrow> byte) \<Rightarrow> buffer \<Rightarrow> js_error + out_state" where
  "resample24kHzTo8kHz_run pool inputBuffer =
     (if length inputBuffer < 2 then Inr \<lparr>outputBuffer = [], writes = [], taken = []\<rparr>
      else
        (let inputSamples = length inputBuffer div 2;
             outputSamples = inputSamples div 3
         in down_loop inputBuffer outputSamples 0
              \<lparr>outputBuffer = allocUnsafe pool (outputSamples * 2), writes = [], taken = []\<rparr>))"

definition resample24kHzTo8kHz :: "(nat \<Rightarrow> byte) \<Rightarrow> buffer \<Rightarrow> js_error + buffer" where
  "resample24kHzTo8kHz pool inputBuffer =
     (case resample24kHzTo8kHz_run pool inputBuffer of
        Inl e \<Rightarrow> Inl e
      | Inr st \<Rightarrow> Inr (outputBuffer st))"

text \<open>
  The upsampler computes \<open>i / 3\<close>, its floor and the difference in JavaScript numbers. The
  model takes them as exact rationals; \<open>Math.round x\<close> is \<open>\<lfloor>x + 1/2\<rfloor>\<close>.
\<close>

definition Math_round :: "rat \<Rightarrow> int" where
  "Math_round x = \<lfloor>x + 1 / 2\<rfloor>"

definition up_body :: "buffer \<Rightarrow> nat \<Rightarrow> nat \<Rightarrow> out_state \<Rightarrow> js_error + out_state" where
  \<comment> \<open>One iteration of the loop of \<open>resample8kHzTo24kHz\<close>; \<open>inputSamples\<close> is at least 1.\<close>
  "up_body inputBuffer inputSamples i st =
     (let inputPos = (of_nat i :: rat) / 3;
          inputIndex = nat \<lfloor>inputPos\<rfloor>;
          fraction = inputPos - of_nat inputIndex
      in if inputSamples - 1 \<le> inputIndex then
           (let lastSampleIndex = (inputSamples - 1) * 2
            in if lastSampleIndex + 1 < length inputBuffer then
                 (case readInt16LE inputBuffer lastSampleIndex of
                    Inl e \<Rightarrow> Inl e
                  | Inr lastSample \<Rightarrow> store16 HoldLast lastSample (i * 2) st)
               else Inr (st\<lparr>taken := taken st @ [HoldLastSkipped]\<rparr>))
         else
           (let sample1Index = inputIndex * 2;
                sample2Index = (inputIndex + 1) * 2
            in if length inputBuffer \<le> sample1Index + 1 \<or> length inputBuffer \<le> sample2Index + 1 then
                 (let lastSampleIndex = max 0 ((length inputBuffer - 2) div 2 * 2)
                  in case readInt16LE inputBuffer lastSampleIndex of
                       Inl e \<Rightarrow> Inl e
                     | Inr lastSample \<Rightarrow> store16 InterpolateFallback lastSample (i * 2) st)
               else
                 (case readInt16LE inputBuffer sample1Index of
                    Inl e \<Rightarrow> Inl e
                  | Inr sample1 \<Rightarrow>
                      (case readInt16LE inputBuffer sample2Index of
                         Inl e \<Rightarrow> Inl e
                       | Inr sample2 \<Rightarrow>
                           (let interpolated =
                                  Math_round (of_int sample1 + (of_int sample2 - of_int sample1) * fraction);
                                clamped = max (- 32768) (min 32767 interpolated)
                            in store16 Interpolate clamped (i * 2) st)))))"

function up_loop :: "buffer \<Rightarrow> nat \<Rightarrow> nat \<Rightarrow> nat \<Rightarrow> out_state \<Rightarrow> js_error + out_state" where
  "up_loop inputBuffer inputSamples outputSamples i st =
     (if i < outputSamples then
        (case up_body inputBuffer inputSamples i st of
           Inl e \<Rightarrow> Inl e
         | Inr st' \<Rightarrow> up_loop inputBuffer inputSamples outputSamples (i + 1) st')
      else Inr st)"
  by pat_completeness auto
termination
  by (relation "measure (\<lambda>(inputBuffer, inputSamples, outputSamples, i, st). outputSamples - i)") auto

definition resample8kHzTo24kHz_run :: "(nat \<Rightarrow> byte) \<Rightarrow> buffer \<Rightarrow> js_error + out_state" where
  "resample8kHzTo24kHz_run pool inputBuffer =
     (if length inputBuffer < 2 then Inr \<lparr>outputBuffer = [], writes = [], taken = []\<rparr>
      else
        (let inputSamples = length inputBuffer div 2;
             outputSamples = inputSamples * 3
         in up_loop inputBuffer inputSamples outputSamples 0
              \<lparr>outputBuffer = allocUnsafe pool (outputSamples * 2), writes = [], taken = []\<rparr>))"

definition resample8kHzTo24kHz :: "(nat \<Rightarrow> byte) \<Rightarrow> buffer \<Rightarrow> js_error + buffer" where
  "resample8kHzTo24kHz pool inputBuffer =
     (case resample8kHzTo24kHz_run pool inputBuffer of
        Inl e \<Rightarrow> Inl e
      | Inr st \<Rightarrow> Inr (outputBuffer st))"


text \<open>
  What the spec says of the resamplers, over samples rather than bytes: decimation by three,
  and linear interpolation by three with rounding, clamping and the last sample held. The
  functions above are compared with these.
\<close>

definition down_bytes :: "buffer \<Rightarrow> nat \<Rightarrow> nat \<Rightarrow> buffer" where
  "down_bytes inputBuffer i n =
     concat (map (\<lambda>j. [inputBuffer ! (6 * j), inputBuffer ! (6 * j + 1)]) [i..<n])"

definition upsample_spec :: "int list \<Rightarrow> nat \<Rightarrow> int" where
  "upsample_spec s p =
     (let k = p div 3
      in if length s - 1 \<le> k then s ! (length s - 1)
         else max (- 32768) (min 32767
                (Math_round (of_int (s ! k) + (of_int (s ! (k + 1)) - of_int (s ! k)) * (of_nat (p mod 3) / 3)))))"

definition up_bytes :: "buffer \<Rightarrow> nat \<Rightarrow> nat \<Rightarrow> buffer" where
  "up_bytes inputBuffer i n =
     concat (map (\<lambda>p. [of_int (upsample_spec (samples inputBuffer) p),
                        of_int (upsample_spec (samples inputBuffer) p div 256)]) [i..<n])"

definition up_branch :: "nat \<Rightarrow> nat \<Rightarrow> branch" where
  "up_branch K p = (if K - 1 \<le> p div 3 then HoldLast else Interpolate)"

section \<open>Sessions, sockets and the registry\<close>

text \<open>
  A JavaScript string that may be \<open>undefined\<close> or \<open>null\<close> is an optional string; it is
  truthy when it is present and not empty. A WebSocket object is known by its identity, and
  its \<open>readyState\<close> is part of the world. The \<open>sessions\<close> map is an association list in
  insertion order, as a JavaScript \<open>Map\<close> iterates: \<open>set\<close> on a key that is present
  keeps its place, on a new key appends. \<open>startedAt\<close> is never read and is left out. Logging
  and the HTTP acknowledgement are not modelled.
\<close>

type_synonym jsstr = "string option"
type_synonym ws = nat

definition truthy :: "jsstr \<Rightarrow> bool" where
  "truthy v = (case v of None \<Rightarrow> False | Some s \<Rightarrow> s \<noteq> [])"

datatype ready_state = CONNECTING | OPEN | CLOSING | CLOSED

record session =
  openaiWs :: ws
  callControlId :: jsstr
  sessionReady :: bool
  telnyxWs :: "ws option"
  pendingMediaStart :: bool
  pendingCallControlId :: jsstr
  hasActiveResponse :: bool
  audioQueue :: "buffer list"

record world =
  sessions :: "(jsstr \<times> session) list"
  wsCallMap :: "ws \<rightharpoonup> jsstr"
  readyState :: "ws \<Rightarrow> ready_state"
  allocPool :: "nat \<Rightarrow> byte"

datatype openai_out =
    SessionUpdate | ConversationItemCreate | ResponseCreate | InputAudioBufferAppend buffer

datatype action =
    AnswerCall jsstr
  | StartMediaStream jsstr
  | NewWebSocket ws
  | SendOpenAI ws openai_out
  | SendTelnyxMedia ws buffer
  | Close ws

definition sessions_get :: "world \<Rightarrow> jsstr \<Rightarrow> session option" where
  "sessions_get w callId = map_of (sessions w) callId"

definition sessions_set :: "jsstr \<Rightarrow> session \<Rightarrow> world \<Rightarrow> world" where
  "sessions_set callId s w = w\<lparr>sessions := AList.update callId s (sessions w)\<rparr>"

definition sessions_delete :: "jsstr \<Rightarrow> world \<Rightarrow> world" where
  "sessions_delete callId w = w\<lparr>sessions := AList.delete callId (sessions w)\<rparr>"

definition ws_send :: "world \<Rightarrow> ws \<Rightarrow> action \<Rightarrow> js_error + action list" where
  \<comment> \<open>\<open>ws.send\<close> of the \<open>ws\<close> package: it throws while the socket is connecting, hands
      the message over when it is open, and discards it once the socket is closing or closed.\<close>
  "ws_send w sock a =
     (case readyState w sock of
        CONNECTING \<Rightarrow> Inl NotOpenError
      | OPEN \<Rightarrow> Inr [a]
      | CLOSING \<Rightarrow> Inr []
      | CLOSED \<Rightarrow> Inr [])"

definition ws_close :: "ws \<Rightarrow> world \<Rightarrow> world" where
  \<comment> \<open>\<open>ws.close()\<close>: a socket that is not yet closed starts closing.\<close>
  "ws_close sock w =
     w\<lparr>readyState := (readyState w)
          (sock := (case readyState w sock of CLOSED \<Rightarrow> CLOSED | _ \<Rightarrow> CLOSING))\<rparr>"

section \<open>Webhook handlers\<close>

record payload =
  call_control_id :: jsstr
  call_session_id :: jsstr

definition startMediaStream :: "jsstr \<Rightarrow> action list" where
  \<comment> \<open>The POST to \<open>streaming_start\<close> with the media socket URL carrying \<open>call_id\<close>. A
      failure of the request is logged by the caller and changes no state.\<close>
  "startMediaStream callControlId' = [StartMediaStream callControlId']"

definition startOpenAIRealtimeSession :: "ws \<Rightarrow> jsstr \<Rightarrow> jsstr \<Rightarrow> world \<Rightarrow> world \<times> action list" where
  \<comment> \<open>\<open>newWs\<close> is the identity of the socket that \<open>new WebSocket(...)\<close> creates.\<close>
  "startOpenAIRealtimeSession newWs callId callControlId' w =
     (sessions_set callId
        \<lparr>openaiWs = newWs, callControlId = callControlId', sessionReady = False,
         telnyxWs = None, pendingMediaStart = False, pendingCallControlId = None,
         hasActiveResponse = False, audioQueue = []\<rparr>
        (w\<lparr>readyState := (readyState w)(newWs := CONNECTING)\<rparr>),
      [NewWebSocket newWs])"

definition handleCallInitiated :: "bool \<Rightarrow> ws \<Rightarrow> payload \<Rightarrow> jsstr \<Rightarrow> world \<Rightarrow> world \<times> action list" where
  \<comment> \<open>\<open>answerOk\<close> tells whether the answer request succeeded; when it throws, the session is
      not started.\<close>
  "handleCallInitiated answerOk newWs pl callId w =
     (let callControlId' = call_control_id pl
      in if answerOk then
           (case startOpenAIRealtimeSession newWs callId callControlId' w of
              (w', acts) \<Rightarrow> (w', AnswerCall callControlId' # acts))
         else (w, [AnswerCall callControlId']))"

definition handleCallAnswered :: "payload \<Rightarrow> jsstr \<Rightarrow> world \<Rightarrow> world \<times> action list" where
  "handleCallAnswered pl callId w =
     (let callControlId' = call_control_id pl
      in case sessions_get w callId of
           Some s \<Rightarrow>
             if sessionReady s then (w, startMediaStream callControlId')
             else (sessions_set callId
                     (s\<lparr>pendingMediaStart := True, pendingCallControlId := callControlId'\<rparr>) w, [])
         | None \<Rightarrow> (w, []))"

definition handleCallHangup :: "jsstr \<Rightarrow> world \<Rightarrow> world \<times> action list" where
  \<comment> \<open>\<open>session.openaiWs\<close> always holds the socket object, so its truthiness test passes.\<close>
  "handleCallHangup callId w =
     (case sessions_get w callId of
        Some s \<Rightarrow> (sessions_delete callId (ws_close (openaiWs s) w), [Close (openaiWs s)])
      | None \<Rightarrow> (w, []))"

definition webhook :: "bool \<Rightarrow> ws \<Rightarrow> string \<Rightarrow> payload \<Rightarrow> world \<Rightarrow> world \<times> action list" where
  "webhook answerOk newWs eventType pl w =
     (let callId = (if truthy (call_control_id pl) then call_control_id pl else call_session_id pl)
      in if eventType = ''call.initiated'' then handleCallInitiated answerOk newWs pl callId w
         else if eventType = ''call.answered'' then handleCallAnswered pl callId w
         else if eventType = ''call.hangup'' \<or> eventType = ''call.bridged'' then handleCallHangup callId w
         else (w, []))"


section \<open>The AI provider socket\<close>

definition sendAudioToTelnyx :: "jsstr \<Rightarrow> buffer \<Rightarrow> world \<Rightarrow> world \<times> action list" where
  \<comment> \<open>With an open relay socket the chunk is sent first and the queue, when it is not empty,
      after it. \<open>session.audioQueue\<close> is always an array, so its truthiness tests pass.\<close>
  "sendAudioToTelnyx callId audioBuffer w =
     (case sessions_get w callId of
        None \<Rightarrow> (w, [])
      | Some s \<Rightarrow>
          if length audioBuffer = 0 then (w, [])
          else
            (let buffered = (sessions_set callId (s\<lparr>audioQueue := audioQueue s @ [audioBuffer]\<rparr>) w, [])
             in case telnyxWs s of
                  None \<Rightarrow> buffered
                | Some t \<Rightarrow>
                    if readyState w t = OPEN then
                      (if audioQueue s \<noteq> [] then
                         (sessions_set callId (s\<lparr>audioQueue := []\<rparr>) w,
                          SendTelnyxMedia t audioBuffer # map (SendTelnyxMedia t) (audioQueue s))
                       else (w, [SendTelnyxMedia t audioBuffer]))
                    else buffered))"

record openai_msg =
  msg_type :: string
  item_role :: jsstr
  delta :: "buffer option"

text \<open>
  A message of the provider after \<open>JSON.parse\<close>: its \<open>type\<close>, the \<open>role\<close> of its \<open>item\<close>
  when it has one, and the bytes that a non-empty \<open>delta\<close> decodes to from base64. Data that
  does not parse makes the handler's \<open>catch\<close> log it and change nothing.
\<close>

datatype inbound = Unparsable | Parsed openai_msg

definition openai_on_open :: "jsstr \<Rightarrow> ws \<Rightarrow> world \<Rightarrow> world \<times> action list" where
  "openai_on_open callId sock w =
     (case ws_send w sock (SendOpenAI sock SessionUpdate) of
        Inl e \<Rightarrow> (w, [])
      | Inr acts \<Rightarrow> (w, acts))"

definition openai_on_message :: "jsstr \<Rightarrow> ws \<Rightarrow> inbound \<Rightarrow> world \<Rightarrow> world \<times> action list" where
  "openai_on_message callId sock data w =
     (case data of
        Unparsable \<Rightarrow> (w, [])
      | Parsed message \<Rightarrow>
          if msg_type message = ''session.updated'' then
            (case sessions_get w callId of
               None \<Rightarrow> (w, [])
             | Some s \<Rightarrow>
                 (let w1 = sessions_set callId (s\<lparr>sessionReady := True\<rparr>) w
                  in case ws_send w1 sock (SendOpenAI sock ConversationItemCreate) of
                       Inl e \<Rightarrow> (w1, [])
                     | Inr acts \<Rightarrow>
                         if pendingMediaStart s \<and> truthy (pendingCallControlId s) then
                           (sessions_set callId
                              (s\<lparr>sessionReady := True, pendingMediaStart := False,
                                 pendingCallControlId := None\<rparr>) w1,
                            acts @ startMediaStream (pendingCallControlId s))
                         else (w1, acts)))
          else if msg_type message = ''conversation.item.created'' then
            (case sessions_get w callId of
               None \<Rightarrow> (w, [])
             | Some s \<Rightarrow>
                 if item_role message = Some ''user'' \<and> \<not> hasActiveResponse s then
                   (case ws_send w (openaiWs s) (SendOpenAI (openaiWs s) ResponseCreate) of
                      Inl e \<Rightarrow> (w, [])
                    | Inr acts \<Rightarrow> (sessions_set callId (s\<lparr>hasActiveResponse := True\<rparr>) w, acts))
                 else (w, []))
          else if msg_type message = ''response.audio.delta''
                \<or> msg_type message = ''response.output_audio.delta'' then
            (case delta message of
               None \<Rightarrow> (w, [])
             | Some audioBuffer \<Rightarrow>
                 (case resample24kHzTo8kHz (allocPool w) audioBuffer of
                    Inl e \<Rightarrow> (w, [])
                  | Inr resampledAudio \<Rightarrow>
                      if 0 < length resampledAudio then sendAudioToTelnyx callId resampledAudio w
                      else (w, [])))
          else if msg_type message = ''response.done'' then
            (case sessions_get w callId of
               None \<Rightarrow> (w, [])
             | Some s \<Rightarrow> (sessions_set callId (s\<lparr>hasActiveResponse := False\<rparr>) w, []))
          else (w, []))"

definition openai_on_close :: "jsstr \<Rightarrow> ws \<Rightarrow> world \<Rightarrow> world \<times> action list" where
  "openai_on_close callId sock w =
     (case sessions_get w callId of
        Some s \<Rightarrow> if openaiWs s = sock then (sessions_delete callId w, []) else (w, [])
      | None \<Rightarrow> (w, []))"

section \<open>The telephony media socket\<close>

text \<open>
  \<open>Frame b\<close> is a message from which the handler obtains the audio buffer \<open>b\<close>;
  \<open>JsonMessage\<close> is a string that parses as JSON, which the handler only logs.
\<close>

datatype telnyx_data = Frame buffer | JsonMessage

fun claim_first :: "ws \<Rightarrow> (jsstr \<times> session) list \<Rightarrow> (jsstr \<times> (jsstr \<times> session) list) option" where
  \<comment> \<open>The loop over \<open>sessions.entries()\<close>: the first session without a relay socket gets
      this one, in place.\<close>
  "claim_first sock [] = None"
| "claim_first sock ((id', s) # rest) =
     (if telnyxWs s = None then Some (id', (id', s\<lparr>telnyxWs := Some sock\<rparr>) # rest)
      else (case claim_first sock rest of
              None \<Rightarrow> None
            | Some (found, rest') \<Rightarrow> Some (found, (id', s) # rest')))"

definition attach :: "ws \<Rightarrow> world \<Rightarrow> (world \<times> action list) + (jsstr \<times> world \<times> action list)" where
  \<comment> \<open>The part of the message handler that finds \<open>activeCallId\<close> and stores the socket in
      the session. \<open>Inl\<close>: the handler has returned; \<open>Inr\<close>: it goes on with this call
      identifier. When \<open>wsInfo\<close> is undefined, \<open>wsInfo.callId = id\<close> throws after the socket
      was stored, and the handler's \<open>catch\<close> ends it.\<close>
  "attach sock w =
     (let wsInfo = wsCallMap w sock;
          activeCallId = (case wsInfo of None \<Rightarrow> None | Some c \<Rightarrow> c)
      in if \<not> truthy activeCallId then
           (case claim_first sock (sessions w) of
              None \<Rightarrow> Inl (w, [])
            | Some (id', sessions') \<Rightarrow>
                (case wsInfo of
                   None \<Rightarrow> Inl (w\<lparr>sessions := sessions'\<rparr>, [])
                 | Some c \<Rightarrow>
                     (let w' = w\<lparr>sessions := sessions', wsCallMap := (wsCallMap w)(sock \<mapsto> id')\<rparr>
                      in if \<not> truthy id' then Inl (w', []) else Inr (id', w', []))))
         else
           (case sessions_get w activeCallId of
              Some s \<Rightarrow>
                if telnyxWs s = None then
                  (if audioQueue s \<noteq> [] \<and> readyState w sock = OPEN then
                     Inr (activeCallId,
                          sessions_set activeCallId (s\<lparr>telnyxWs := Some sock, audioQueue := []\<rparr>) w,
                          map (SendTelnyxMedia sock) (audioQueue s))
                   else Inr (activeCallId, sessions_set activeCallId (s\<lparr>telnyxWs := Some sock\<rparr>) w, []))
                else Inr (activeCallId, w, [])
            | None \<Rightarrow> Inr (activeCallId, w, [])))"

definition forward_frame :: "jsstr \<Rightarrow> buffer \<Rightarrow> world \<Rightarrow> action list \<Rightarrow> world \<times> action list" where
  \<comment> \<open>The rest of the message handler, after \<open>activeCallId\<close> is known; \<open>acts\<close> is what the
      handler has sent so far.\<close>
  "forward_frame activeCallId audioBuffer w acts =
     (case sessions_get w activeCallId of
        None \<Rightarrow> (w, acts)
      | Some s \<Rightarrow>
          if \<not> sessionReady s then (w, acts)
          else
            (case resample8kHzTo24kHz (allocPool w) audioBuffer of
               Inl e \<Rightarrow> (w, acts)
             | Inr resampledBuffer \<Rightarrow>
                 if length resampledBuffer = 0 then (w, acts)
                 else if readyState w (openaiWs s) = OPEN then
                   (w, acts @ [SendOpenAI (openaiWs s) (InputAudioBufferAppend resampledBuffer)])
                 else (w, acts)))"

definition telnyx_on_connection :: "ws \<Rightarrow> jsstr \<Rightarrow> world \<Rightarrow> world \<times> action list" where
  \<comment> \<open>\<open>callId\<close> is the \<open>call_id\<close> parameter of the URL, or null.\<close>
  "telnyx_on_connection sock callId w = (w\<lparr>wsCallMap := (wsCallMap w)(sock \<mapsto> callId)\<rparr>, [])"

definition telnyx_on_message :: "ws \<Rightarrow> telnyx_data \<Rightarrow> world \<Rightarrow> world \<times> action list" where
  "telnyx_on_message sock data w =
     (case data of
        JsonMessage \<Rightarrow> (w, [])
      | Frame audioBuffer \<Rightarrow>
          if length audioBuffer = 0 then (w, [])
          else
            (case attach sock w of
               Inl r \<Rightarrow> r
             | Inr (activeCallId, w', acts) \<Rightarrow> forward_frame activeCallId audioBuffer w' acts))"

definition telnyx_on_close :: "ws \<Rightarrow> world \<Rightarrow> world \<times> action list" where
  "telnyx_on_close sock w =
     (let callId = (case wsCallMap w sock of None \<Rightarrow> None | Some c \<Rightarrow> c);
          w1 = (if truthy callId then
                  (case sessions_get w callId of
                     Some s \<Rightarrow> sessions_set callId (s\<lparr>telnyxWs := None\<rparr>) w
                   | None \<Rightarrow> w)
                else w)
      in (w1\<lparr>wsCallMap := (wsCallMap w1)(sock := None)\<rparr>, []))"

section \<open>Events\<close>

text \<open>
  Every entry point of the server is an event. The handlers of an AI provider socket close
  over the call identifier and the socket they were registered for, so the events of that
  socket carry both. A socket is open when its \<open>open\<close> or \<open>connection\<close> event is
  emitted and closed when its \<open>close\<close> event is. The source sets no timer, so there is
  no timer event.
\<close>

datatype event =
    Webhook bool ws string payload
  | OpenAIOpen jsstr ws
  | OpenAIMessage jsstr ws inbound
  | OpenAIError jsstr ws
  | OpenAIClose jsstr ws
  | TelnyxConnection ws jsstr
  | TelnyxMessage ws telnyx_data
  | TelnyxClose ws

fun step :: "event \<Rightarrow> world \<Rightarrow> world \<times> action list" where
  "step (Webhook answerOk newWs eventType pl) w = webhook answerOk newWs eventType pl w"
| "step (OpenAIOpen callId sock) w =
     openai_on_open callId sock (w\<lparr>readyState := (readyState w)(sock := OPEN)\<rparr>)"
| "step (OpenAIMessage callId sock data) w = openai_on_message callId sock data w"
| "step (OpenAIError callId sock) w = (w, [])"
| "step (OpenAIClose callId sock) w =
     openai_on_close callId sock (w\<lparr>readyState := (readyState w)(sock := CLOSED)\<rparr>)"
| "step (TelnyxConnection sock callId) w =
     telnyx_on_connection sock callId (w\<lparr>readyState := (readyState w)(sock := OPEN)\<rparr>)"
| "step (TelnyxMessage sock data) w = telnyx_on_message sock data w"
| "step (TelnyxClose sock) w =
     telnyx_on_close sock (w\<lparr>readyState := (readyState w)(sock := CLOSED)\<rparr>)"

fun run :: "event list \<Rightarrow> world \<Rightarrow> world \<times> action list" where
  "run [] w = (w, [])"
| "run (e # es) w =
     (case step e w of
        (w1, acts1) \<Rightarrow> (case run es w1 of (w2, acts2) \<Rightarrow> (w2, acts1 @ acts2)))"


section \<open>Bytes and samples\<close>

lemma int16_arith:
  fixes x y :: int
  assumes "0 \<le> x" "x < 256" "0 \<le> y" "y < 256"
  shows "- 32768 \<le> (if 32768 \<le> x + y * 256 then x + y * 256 - 65536 else x + y * 256)"
    and "(if 32768 \<le> x + y * 256 then x + y * 256 - 65536 else x + y * 256) \<le> 32767"
  using assms by auto

lemma int16_of_bytes_unfold:
  "int16_of_bytes a b =
     (if 32768 \<le> uint a + uint b * 256 then uint a + uint b * 256 - 65536
      else uint a + uint b * 256)"
  by (simp add: int16_of_bytes_def Let_def)

lemma uint_byte_bounds: "0 \<le> uint (a :: byte)" "uint (a :: byte) < 256"
  using uint_lt2p[of a] by simp_all

lemma int16_of_bytes_range: "- 32768 \<le> int16_of_bytes a b \<and> int16_of_bytes a b \<le> 32767"
  unfolding int16_of_bytes_unfold
  by (rule conjI; rule int16_arith; rule uint_byte_bounds)

lemma low_arith:
  fixes x y :: int
  assumes "0 \<le> x" "x < 256" "0 \<le> y" "y < 256"
  shows "(if 32768 \<le> x + y * 256 then x + y * 256 - 65536 else x + y * 256) mod 256 = x"
proof -
  have e: "x + y * 256 - 65536 = x + (y - 256) * 256" by (simp add: algebra_simps)
  have "(x + (y - 256) * 256) mod 256 = x mod 256" by (rule mod_mult_self1)
  moreover have "(x + y * 256) mod 256 = x mod 256" by (rule mod_mult_self1)
  moreover have "x mod 256 = x" using assms by (simp add: mod_pos_pos_trivial)
  ultimately show ?thesis by (simp only: e simp_thms split: if_split)
qed

lemma high_arith:
  fixes x y :: int
  assumes "0 \<le> x" "x < 256" "0 \<le> y" "y < 256"
  shows "(if 32768 \<le> x + y * 256 then x + y * 256 - 65536 else x + y * 256) div 256 mod 256 = y"
proof -
  have e: "x + y * 256 - 65536 = x + (y - 256) * 256" by (simp add: algebra_simps)
  have x0: "x div 256 = 0" using assms by (simp add: div_pos_pos_trivial)
  have "(x + (y - 256) * 256) div 256 = y - 256 + x div 256" by (rule div_mult_self1) simp
  then have a: "(x + (y - 256) * 256) div 256 mod 256 = y mod 256"
    using x0 by (simp add: mod_diff_eq[symmetric] del: mod_diff_eq)
  have "(x + y * 256) div 256 = y + x div 256" by (rule div_mult_self1) simp
  then have b: "(x + y * 256) div 256 mod 256 = y mod 256" using x0 by simp
  have "y mod 256 = y" using assms by (simp add: mod_pos_pos_trivial)
  with a b show ?thesis by (simp only: e simp_thms split: if_split)
qed

lemma encode_arith:
  fixes v :: int
  assumes "- 32768 \<le> v" "v \<le> 32767"
  shows "(if 32768 \<le> v mod 256 + v div 256 mod 256 * 256
          then v mod 256 + v div 256 mod 256 * 256 - 65536
          else v mod 256 + v div 256 mod 256 * 256) = v"
proof -
  have "v mod (256 * 256) = 256 * (v div 256 mod 256) + v mod 256"
    by (rule zmod_zmult2_eq) simp
  then have m: "v mod 256 + v div 256 mod 256 * 256 = v mod 65536"
    by (simp add: mult.commute)
  show ?thesis
  proof (cases "0 \<le> v")
    case True
    then have "v mod 65536 = v" using assms by (simp add: mod_pos_pos_trivial)
    then show ?thesis unfolding m using assms by simp
  next
    case False
    have "(v + 65536) mod 65536 = v mod 65536" by (rule mod_add_self2)
    moreover have "(v + 65536) mod 65536 = v + 65536"
      by (rule mod_pos_pos_trivial) (use assms False in linarith)+
    ultimately have "v mod 65536 = v + 65536" by simp
    then show ?thesis unfolding m using assms False by simp
  qed
qed

lemma uint_byte_of_int: "uint (of_int v :: byte) = v mod 256"
  by (simp add: uint_word_of_int)

lemma int16_of_bytes_encode:
  assumes "- 32768 \<le> v" "v \<le> 32767"
  shows "int16_of_bytes (of_int v) (of_int (v div 256)) = v"
  unfolding int16_of_bytes_unfold uint_byte_of_int
  using assms by (rule encode_arith)

lemma low_byte_int16: "of_int (int16_of_bytes a b) = a"
proof -
  have "int16_of_bytes a b mod 256 = uint a"
    unfolding int16_of_bytes_unfold by (rule low_arith; rule uint_byte_bounds)
  then have "uint (of_int (int16_of_bytes a b) :: byte) = uint a"
    by (simp only: uint_byte_of_int)
  then show ?thesis by (simp only: word_uint_eq_iff[symmetric])
qed

lemma high_byte_int16: "of_int (int16_of_bytes a b div 256) = b"
proof -
  have "int16_of_bytes a b div 256 mod 256 = uint b"
    unfolding int16_of_bytes_unfold by (rule high_arith; rule uint_byte_bounds)
  then have "uint (of_int (int16_of_bytes a b div 256) :: byte) = uint b"
    by (simp only: uint_byte_of_int)
  then show ?thesis by (simp only: word_uint_eq_iff[symmetric])
qed

lemma take_two_updates:
  "k + 1 < length xs \<Longrightarrow> take (k + 2) (xs[k := a, k + 1 := b]) = take k xs @ [a, b]"
  by (simp add: take_Suc_conv_app_nth)

lemma store16_ok:
  assumes "- 32768 \<le> v" "v \<le> 32767" "off + 1 < length (outputBuffer st)"
  shows "store16 b v off st =
           Inr \<lparr>outputBuffer = (outputBuffer st)[off := of_int v, off + 1 := of_int (v div 256)],
                writes = writes st @ [off, off + 1], taken = taken st @ [b]\<rparr>"
  using assms by (simp add: store16_def writeInt16LE_def)

lemma down_body_ok:
  assumes "i < n" "3 * n \<le> length inputBuffer div 2" "length (outputBuffer st) = 2 * n"
  shows "down_body inputBuffer i st =
           Inr \<lparr>outputBuffer = (outputBuffer st)[2 * i := inputBuffer ! (6 * i),
                                                 2 * i + 1 := inputBuffer ! (6 * i + 1)],
                writes = writes st @ [2 * i, 2 * i + 1], taken = taken st @ [Decimate]\<rparr>"
proof -
  have len: "6 * i + 1 < length inputBuffer" using assms by linarith
  have e1: "i * 3 * 2 = 6 * i" and e2: "i * 2 = 2 * i" by simp_all
  have c: "\<not> length inputBuffer \<le> 6 * i + 1" using len by simp
  have rd: "readInt16LE inputBuffer (6 * i) =
              Inr (int16_of_bytes (inputBuffer ! (6 * i)) (inputBuffer ! (6 * i + 1)))"
    using len by (simp add: readInt16LE_def)
  have off: "2 * i + 1 < length (outputBuffer st)" using assms by simp
  have wr: "store16 Decimate (int16_of_bytes (inputBuffer ! (6 * i)) (inputBuffer ! (6 * i + 1))) (2 * i) st =
     Inr \<lparr>outputBuffer = (outputBuffer st)[2 * i := inputBuffer ! (6 * i),
                                                 2 * i + 1 := inputBuffer ! (6 * i + 1)],
                writes = writes st @ [2 * i, 2 * i + 1], taken = taken st @ [Decimate]\<rparr>"
    using store16_ok[OF int16_of_bytes_range[THEN conjunct1] int16_of_bytes_range[THEN conjunct2] off]
    by (simp only: low_byte_int16 high_byte_int16)
  show ?thesis
    unfolding down_body_def Let_def e1 e2
    by (simp only: c if_False rd sum.case wr)
qed

lemma down_loop_ok:
  assumes "i \<le> n" "3 * n \<le> length inputBuffer div 2" "length (outputBuffer st) = 2 * n"
  shows "down_loop inputBuffer n i st =
           Inr \<lparr>outputBuffer = take (2 * i) (outputBuffer st) @ down_bytes inputBuffer i n,
                writes = writes st @ [2 * i..<2 * n],
                taken = taken st @ replicate (n - i) Decimate\<rparr>"
  using assms
proof (induction "n - i" arbitrary: i st)
  case 0
  then have "i = n" by simp
  then show ?case using 0 by (simp add: down_bytes_def)
next
  case (Suc d)
  then have lt: "i < n" by simp
  let ?st = "\<lparr>outputBuffer = (outputBuffer st)[2 * i := inputBuffer ! (6 * i),
                                                 2 * i + 1 := inputBuffer ! (6 * i + 1)],
                writes = writes st @ [2 * i, 2 * i + 1], taken = taken st @ [Decimate]\<rparr>"
  have body: "down_body inputBuffer i st = Inr ?st"
    using down_body_ok[OF lt Suc.prems(2,3)] .
  have ih: "down_loop inputBuffer n (i + 1) ?st =
     Inr \<lparr>outputBuffer = take (2 * (i + 1)) (outputBuffer ?st) @ down_bytes inputBuffer (i + 1) n,
          writes = writes ?st @ [2 * (i + 1)..<2 * n],
          taken = taken ?st @ replicate (n - (i + 1)) Decimate\<rparr>"
    using Suc.hyps(1)[of "i + 1" ?st] Suc.hyps(2) lt Suc.prems by simp
  have tk: "take (2 * (i + 1)) (outputBuffer ?st) =
              take (2 * i) (outputBuffer st) @ [inputBuffer ! (6 * i), inputBuffer ! (6 * i + 1)]"
    using take_two_updates[of "2 * i" "outputBuffer st"] lt Suc.prems(3) by simp
  have db: "down_bytes inputBuffer i n =
              [inputBuffer ! (6 * i), inputBuffer ! (6 * i + 1)] @ down_bytes inputBuffer (i + 1) n"
    using lt by (simp add: down_bytes_def upt_conv_Cons)
  have wr: "[2 * i..<2 * n] = [2 * i, 2 * i + 1] @ [2 * (i + 1)..<2 * n]"
    using lt by (simp add: upt_conv_Cons)
  have rp: "replicate (n - i) Decimate = [Decimate] @ replicate (n - (i + 1)) Decimate"
    using lt by (metis Suc_diff_Suc Suc_eq_plus1 append_Cons append_Nil replicate_Suc)
  show ?case
    apply (subst down_loop.simps)
    apply (simp only: lt if_True body sum.case ih tk db wr rp)
    apply simp
    done
qed

lemma length_pairs:
  "length (concat (map (\<lambda>j. [g j, h j]) [i..<n])) = 2 * (n - i)"
  by (induction n) (auto simp: Suc_diff_le)

lemma pairs_snoc:
  "i \<le> n \<Longrightarrow> concat (map (\<lambda>j. [g j, h j]) [i..<Suc n]) =
     concat (map (\<lambda>j. [g j, h j]) [i..<n]) @ [g n, h n]"
  by simp

lemma nth_pairs:
  assumes "k < n"
  shows "concat (map (\<lambda>j. [g j, h j]) [0..<n]) ! (2 * k) = g k"
    and "concat (map (\<lambda>j. [g j, h j]) [0..<n]) ! (2 * k + 1) = h k"
  using assms
proof (induction n)
  case 0
  { case 1 then show ?case by simp }
  { case 2 then show ?case by simp }
next
  case (Suc n)
  { case 1
    show ?case
    proof (cases "k < n")
      case True
      then show ?thesis using Suc.IH(1) by (simp add: nth_append length_pairs)
    next
      case False
      then have "k = n" using 1 by simp
      then show ?thesis by (simp add: nth_append length_pairs)
    qed }
  { case 2
    show ?case
    proof (cases "k < n")
      case True
      then show ?thesis using Suc.IH(2) by (simp add: nth_append length_pairs)
    next
      case False
      then have "k = n" using 2 by simp
      then show ?thesis by (simp add: nth_append length_pairs)
    qed }
qed

lemma samples_pairs:
  "samples (concat (map (\<lambda>j. [g j, h j]) [0..<n])) = map (\<lambda>k. int16_of_bytes (g k) (h k)) [0..<n]"
  unfolding samples_def length_pairs
  using nth_pairs[of _ n g h] by simp

lemma samples_Cons2: "samples (a # b # xs) = int16_of_bytes a b # samples xs"
  by (simp add: samples_def map_upt_Suc del: upt_Suc)

lemma samples_short: "samples [] = []" "samples [a] = []"
  by (simp_all add: samples_def)

lemma length_samples: "length (samples buf) = length buf div 2"
  by (simp add: samples_def)

lemma nth_samples:
  "k < length buf div 2 \<Longrightarrow> samples buf ! k = int16_of_bytes (buf ! (2 * k)) (buf ! (2 * k + 1))"
  by (simp add: samples_def)

lemma resample24kHzTo8kHz_run_eq:
  "resample24kHzTo8kHz_run pool inputBuffer =
     Inr \<lparr>outputBuffer = down_bytes inputBuffer 0 (length inputBuffer div 2 div 3),
          writes = [0..<2 * (length inputBuffer div 2 div 3)],
          taken = replicate (length inputBuffer div 2 div 3) Decimate\<rparr>"
proof (cases "length inputBuffer < 2")
  case True
  then have "length inputBuffer div 2 = 0" by simp
  then show ?thesis using True by (simp add: resample24kHzTo8kHz_run_def down_bytes_def)
next
  case False
  let ?n = "length inputBuffer div 2 div 3"
  let ?st = "\<lparr>outputBuffer = allocUnsafe pool (?n * 2), writes = [], taken = []\<rparr>"
  have "down_loop inputBuffer ?n 0 ?st =
          Inr \<lparr>outputBuffer = take (2 * 0) (outputBuffer ?st) @ down_bytes inputBuffer 0 ?n,
               writes = writes ?st @ [2 * 0..<2 * ?n],
               taken = taken ?st @ replicate (?n - 0) Decimate\<rparr>"
    by (rule down_loop_ok) (simp_all add: allocUnsafe_def)
  then show ?thesis using False by (simp add: resample24kHzTo8kHz_run_def Let_def)
qed

lemma resample24kHzTo8kHz_eq:
  "resample24kHzTo8kHz pool inputBuffer =
     Inr (down_bytes inputBuffer 0 (length inputBuffer div 2 div 3))"
  by (simp add: resample24kHzTo8kHz_def resample24kHzTo8kHz_run_eq)

lemma samples_down_bytes:
  assumes "3 * n \<le> length inputBuffer div 2"
  shows "samples (down_bytes inputBuffer 0 n) = map (\<lambda>i. samples inputBuffer ! (3 * i)) [0..<n]"
proof -
  have "\<And>i. i < n \<Longrightarrow> samples inputBuffer ! (3 * i) =
          int16_of_bytes (inputBuffer ! (6 * i)) (inputBuffer ! (6 * i + 1))"
    using assms by (simp add: nth_samples)
  then show ?thesis unfolding down_bytes_def samples_pairs by simp
qed

lemma floor_third: "nat \<lfloor>(of_nat i :: rat) / 3\<rfloor> = i div 3"
proof -
  have "\<lfloor>(of_nat i :: rat) / of_nat 3\<rfloor> = of_nat (i div 3)"
    by (rule floor_divide_of_nat_eq)
  then show ?thesis by simp
qed

lemma fraction_third: "(of_nat i :: rat) / 3 - of_nat (i div 3) = of_nat (i mod 3) / 3"
proof -
  have "i = 3 * (i div 3) + i mod 3" by simp
  then have "(of_nat i :: rat) = of_nat (3 * (i div 3) + i mod 3)" by simp
  then have "(of_nat i :: rat) = 3 * of_nat (i div 3) + of_nat (i mod 3)"
    by (simp only: of_nat_add of_nat_mult of_nat_numeral)
  then show ?thesis by (simp add: field_simps)
qed

lemma upsample_spec_range:
  assumes "\<forall>x \<in> set s. - 32768 \<le> x \<and> x \<le> 32767" "s \<noteq> []"
  shows "- 32768 \<le> upsample_spec s p \<and> upsample_spec s p \<le> 32767"
proof (cases "length s - 1 \<le> p div 3")
  case True
  have "s ! (length s - 1) \<in> set s" using assms(2) by simp
  then show ?thesis using True assms(1) by (simp add: upsample_spec_def Let_def)
next
  case False
  then show ?thesis by (simp add: upsample_spec_def Let_def)
qed

lemma samples_range: "\<forall>x \<in> set (samples buf). - 32768 \<le> x \<and> x \<le> 32767"
  by (auto simp: samples_def int16_of_bytes_range)

lemma read_sample:
  "k < length buf div 2 \<Longrightarrow> readInt16LE buf (2 * k) = Inr (samples buf ! k)"
  by (simp add: readInt16LE_def nth_samples)

lemma up_body_ok:
  assumes "i < 3 * K" "K = length inputBuffer div 2" "length (outputBuffer st) = 6 * K"
  shows "up_body inputBuffer K i st =
           Inr \<lparr>outputBuffer = (outputBuffer st)
                   [2 * i := of_int (upsample_spec (samples inputBuffer) i),
                    2 * i + 1 := of_int (upsample_spec (samples inputBuffer) i div 256)],
                writes = writes st @ [2 * i, 2 * i + 1],
                taken = taken st @ [up_branch K i]\<rparr>"
proof -
  let ?s = "samples inputBuffer"
  let ?k = "i div 3"
  have K1: "1 \<le> K" using assms(1) by simp
  have kK: "?k < K" using assms(1) by (simp add: less_mult_imp_div_less mult.commute)
  have ls: "length ?s = K" using assms(2) by (simp add: length_samples)
  have ne: "?s \<noteq> []" using ls K1 by auto
  have off: "2 * i + 1 < length (outputBuffer st)" using assms(1,3) by simp
  have e2: "i * 2 = 2 * i" by simp
  have twoK: "2 * K \<le> length inputBuffer" using assms(2) by simp
  note rng = upsample_spec_range[OF samples_range ne, of i]
  have wr: "\<And>b. store16 b (upsample_spec ?s i) (2 * i) st =
     Inr \<lparr>outputBuffer = (outputBuffer st)
                   [2 * i := of_int (upsample_spec ?s i),
                    2 * i + 1 := of_int (upsample_spec ?s i div 256)],
                writes = writes st @ [2 * i, 2 * i + 1],
                taken = taken st @ [b]\<rparr>"
    using store16_ok[OF rng[THEN conjunct1] rng[THEN conjunct2] off] .
  show ?thesis
  proof (cases "K - 1 \<le> ?k")
    case True
    have v: "upsample_spec ?s i = ?s ! (K - 1)"
      using True by (simp add: upsample_spec_def Let_def ls)
    have c: "(K - 1) * 2 + 1 < length inputBuffer" using K1 twoK by simp
    have rd: "readInt16LE inputBuffer ((K - 1) * 2) = Inr (?s ! (K - 1))"
      using read_sample[of "K - 1" inputBuffer] K1 assms(2) by (simp add: mult.commute)
    have br: "up_branch K i = HoldLast" using True by (simp add: up_branch_def)
    show ?thesis
      unfolding up_body_def Let_def floor_third fraction_third e2
      by (simp only: True if_True c rd sum.case wr[unfolded v] v br)
  next
    case False
    then have k1: "?k + 1 < K" by simp
    have v: "upsample_spec ?s i =
        max (- 32768) (min 32767
           (Math_round (of_int (?s ! ?k) + (of_int (?s ! (?k + 1)) - of_int (?s ! ?k)) * (of_nat (i mod 3) / 3))))"
      using False by (simp add: upsample_spec_def Let_def ls)
    have c: "\<not> (length inputBuffer \<le> ?k * 2 + 1 \<or> length inputBuffer \<le> (?k + 1) * 2 + 1)"
      using k1 twoK by simp
    have rd1: "readInt16LE inputBuffer (?k * 2) = Inr (?s ! ?k)"
      using read_sample[of ?k inputBuffer] kK assms(2) by (simp add: mult.commute)
    have rd2: "readInt16LE inputBuffer ((?k + 1) * 2) = Inr (?s ! (?k + 1))"
      using read_sample[of "?k + 1" inputBuffer] k1 assms(2) by (simp add: mult.commute)
    have br: "up_branch K i = Interpolate" using False by (simp add: up_branch_def)
    show ?thesis
      unfolding up_body_def Let_def floor_third fraction_third e2
      by (simp only: False if_False c rd1 rd2 sum.case wr[unfolded v] v br)
  qed
qed

lemma up_loop_ok:
  assumes "i \<le> n" "n = 3 * K" "K = length inputBuffer div 2" "length (outputBuffer st) = 2 * n"
  shows "up_loop inputBuffer K n i st =
           Inr \<lparr>outputBuffer = take (2 * i) (outputBuffer st) @ up_bytes inputBuffer i n,
                writes = writes st @ [2 * i..<2 * n],
                taken = taken st @ map (up_branch K) [i..<n]\<rparr>"
  using assms
proof (induction "n - i" arbitrary: i st)
  case 0
  then have "i = n" by simp
  then show ?case using 0 by (simp add: up_bytes_def)
next
  case (Suc d)
  then have lt: "i < n" by simp
  let ?v = "upsample_spec (samples inputBuffer) i"
  let ?st = "\<lparr>outputBuffer = (outputBuffer st)[2 * i := of_int ?v, 2 * i + 1 := of_int (?v div 256)],
                writes = writes st @ [2 * i, 2 * i + 1], taken = taken st @ [up_branch K i]\<rparr>"
  have body: "up_body inputBuffer K i st = Inr ?st"
    by (rule up_body_ok) (use lt Suc.prems in simp_all)
  have ih: "up_loop inputBuffer K n (i + 1) ?st =
     Inr \<lparr>outputBuffer = take (2 * (i + 1)) (outputBuffer ?st) @ up_bytes inputBuffer (i + 1) n,
          writes = writes ?st @ [2 * (i + 1)..<2 * n],
          taken = taken ?st @ map (up_branch K) [i + 1..<n]\<rparr>"
    using Suc.hyps(1)[of "i + 1" ?st] Suc.hyps(2) lt Suc.prems by simp
  have tk: "take (2 * (i + 1)) (outputBuffer ?st) =
              take (2 * i) (outputBuffer st) @ [of_int ?v, of_int (?v div 256)]"
    using take_two_updates[of "2 * i" "outputBuffer st"] lt Suc.prems(4) by simp
  have db: "up_bytes inputBuffer i n =
              [of_int ?v, of_int (?v div 256)] @ up_bytes inputBuffer (i + 1) n"
    using lt by (simp add: up_bytes_def upt_conv_Cons)
  have wr: "[2 * i..<2 * n] = [2 * i, 2 * i + 1] @ [2 * (i + 1)..<2 * n]"
    using lt by (simp add: upt_conv_Cons)
  have rp: "map (up_branch K) [i..<n] = [up_branch K i] @ map (up_branch K) [i + 1..<n]"
    using lt by (simp add: upt_conv_Cons)
  show ?case
    apply (subst up_loop.simps)
    apply (simp only: lt if_True body sum.case ih tk db wr rp)
    apply simp
    done
qed

lemma resample8kHzTo24kHz_run_eq:
  "resample8kHzTo24kHz_run pool inputBuffer =
     Inr \<lparr>outputBuffer = up_bytes inputBuffer 0 (3 * (length inputBuffer div 2)),
          writes = [0..<2 * (3 * (length inputBuffer div 2))],
          taken = map (up_branch (length inputBuffer div 2)) [0..<3 * (length inputBuffer div 2)]\<rparr>"
proof (cases "length inputBuffer < 2")
  case True
  then have "length inputBuffer div 2 = 0" by simp
  then show ?thesis using True by (simp add: resample8kHzTo24kHz_run_def up_bytes_def)
next
  case False
  let ?K = "length inputBuffer div 2"
  let ?st = "\<lparr>outputBuffer = allocUnsafe pool (?K * 3 * 2), writes = [], taken = []\<rparr>"
  have e: "?K * 3 = 3 * ?K" by simp
  have "up_loop inputBuffer ?K (3 * ?K) 0 ?st =
          Inr \<lparr>outputBuffer = take (2 * 0) (outputBuffer ?st) @ up_bytes inputBuffer 0 (3 * ?K),
               writes = writes ?st @ [2 * 0..<2 * (3 * ?K)],
               taken = taken ?st @ map (up_branch ?K) [0..<3 * ?K]\<rparr>"
    by (rule up_loop_ok) (simp_all add: allocUnsafe_def)
  then show ?thesis unfolding resample8kHzTo24kHz_run_def Let_def e using False
    by (simp del: up_loop.simps)
qed

lemma resample8kHzTo24kHz_eq:
  "resample8kHzTo24kHz pool inputBuffer =
     Inr (up_bytes inputBuffer 0 (3 * (length inputBuffer div 2)))"
  by (simp add: resample8kHzTo24kHz_def resample8kHzTo24kHz_run_eq)

lemma samples_up_bytes:
  "samples (up_bytes inputBuffer 0 (3 * (length inputBuffer div 2))) =
     map (upsample_spec (samples inputBuffer)) [0..<3 * (length inputBuffer div 2)]"
proof (cases "length inputBuffer div 2 = 0")
  case True
  then show ?thesis by (simp add: up_bytes_def samples_def)
next
  case False
  then have "samples inputBuffer \<noteq> []" by (simp add: samples_def)
  then have "\<And>p. int16_of_bytes (of_int (upsample_spec (samples inputBuffer) p))
                     (of_int (upsample_spec (samples inputBuffer) p div 256)) =
                   upsample_spec (samples inputBuffer) p"
    using upsample_spec_range[OF samples_range] by (simp add: int16_of_bytes_encode)
  then show ?thesis unfolding up_bytes_def samples_pairs by simp
qed

lemma Math_round_interp:
  "Math_round (of_int a + (of_int b - of_int a) * (of_nat r / 3)) = a + (2 * (b - a) * int r + 3) div 6"
proof -
  have "(of_int a :: rat) + (of_int b - of_int a) * (of_nat r / 3) + 1 / 2 =
          of_int a + of_int (2 * (b - a) * int r + 3) / of_int 6"
    by (simp add: field_simps)
  then have "Math_round (of_int a + (of_int b - of_int a) * (of_nat r / 3)) =
          \<lfloor>(of_int a :: rat) + of_int (2 * (b - a) * int r + 3) / of_int 6\<rfloor>"
    by (simp only: Math_round_def)
  also have "\<dots> = a + \<lfloor>(of_int (2 * (b - a) * int r + 3) :: rat) / of_int 6\<rfloor>"
    by (simp only: int_add_floor)
  also have "\<dots> = a + (2 * (b - a) * int r + 3) div 6"
    by (simp only: floor_divide_of_int_eq)
  finally show ?thesis .
qed

lemma thirds_monotone:
  fixes d :: int
  shows "0 \<le> d \<Longrightarrow> 0 \<le> (2 * d + 3) div 6 \<and> (2 * d + 3) div 6 \<le> (4 * d + 3) div 6 \<and> (4 * d + 3) div 6 \<le> d"
    and "d \<le> 0 \<Longrightarrow> d \<le> (4 * d + 3) div 6 \<and> (4 * d + 3) div 6 \<le> (2 * d + 3) div 6 \<and> (2 * d + 3) div 6 \<le> 0"
  by linarith+

lemma upsample_spec_pair:
  assumes "- 32768 \<le> S0" "S0 \<le> 32767" "- 32768 \<le> S1" "S1 \<le> 32767"
  shows "map (upsample_spec [S0, S1]) [0..<6] =
           [S0, S0 + (2 * (S1 - S0) + 3) div 6, S0 + (4 * (S1 - S0) + 3) div 6, S1, S1, S1]"
proof -
  have u: "[0..<6] = [0, 1, 2, 3, 4, 5::nat]" by (simp add: upt_rec)
  have m: "\<And>r. Math_round (rat_of_int S0 + (rat_of_int S1 - rat_of_int S0) * (rat_of_nat r / 3)) =
              S0 + (2 * (S1 - S0) * int r + 3) div 6"
    by (rule Math_round_interp)
  have c1: "max (- 32768) (min 32767 (S0 + (2 * (S1 - S0) + 3) div 6)) = S0 + (2 * (S1 - S0) + 3) div 6"
    using thirds_monotone[of "S1 - S0"] assms by linarith
  have c2: "max (- 32768) (min 32767 (S0 + (4 * (S1 - S0) + 3) div 6)) = S0 + (4 * (S1 - S0) + 3) div 6"
    using thirds_monotone[of "S1 - S0"] assms by linarith
  have p0: "upsample_spec [S0, S1] 0 = S0"
    using assms m[of 0] by (simp add: upsample_spec_def)
  have p1: "upsample_spec [S0, S1] 1 = S0 + (2 * (S1 - S0) + 3) div 6"
    using c1 m[of 1] by (simp add: upsample_spec_def)
  have p2: "upsample_spec [S0, S1] 2 = S0 + (4 * (S1 - S0) + 3) div 6"
    using c2 m[of 2] by (simp add: upsample_spec_def)
  have p3: "upsample_spec [S0, S1] 3 = S1" "upsample_spec [S0, S1] 4 = S1" "upsample_spec [S0, S1] 5 = S1"
    by (simp_all add: upsample_spec_def)
  show ?thesis unfolding u by (simp only: list.map p0 p1 p2 p3)
qed

lemma down_bytes_take:
  "6 * n \<le> m \<Longrightarrow> down_bytes (take m inputBuffer) 0 n = down_bytes inputBuffer 0 n"
proof -
  assume m: "6 * n \<le> m"
  have "map (\<lambda>j. [take m inputBuffer ! (6 * j), take m inputBuffer ! (6 * j + 1)]) [0..<n] =
        map (\<lambda>j. [inputBuffer ! (6 * j), inputBuffer ! (6 * j + 1)]) [0..<n]"
    by (rule map_cong[OF refl]) (use m in simp)
  then show ?thesis unfolding down_bytes_def by (rule arg_cong)
qed

lemma samples_take_even:
  "samples (take (2 * (length buf div 2)) buf) = samples buf"
proof -
  have "length (take (2 * (length buf div 2)) buf) = 2 * (length buf div 2)" by simp
  then have l: "length (take (2 * (length buf div 2)) buf) div 2 = length buf div 2" by simp
  show ?thesis unfolding samples_def l by simp
qed

lemma up_branch_cases: "up_branch K p = HoldLast \<or> up_branch K p = Interpolate"
  by (simp add: up_branch_def)

lemma resample24kHzTo8kHz_whole_samples:
  "resample24kHzTo8kHz pool (take (2 * (length inputBuffer div 2)) inputBuffer) =
   resample24kHzTo8kHz pool' inputBuffer"
proof -
  let ?m = "2 * (length inputBuffer div 2)"
  have l: "length (take ?m inputBuffer) div 2 = length inputBuffer div 2" by simp
  have "6 * (length inputBuffer div 2 div 3) \<le> ?m" by simp
  then show ?thesis unfolding resample24kHzTo8kHz_eq l by (simp only: down_bytes_take)
qed

lemma resample8kHzTo24kHz_whole_samples:
  "resample8kHzTo24kHz pool (take (2 * (length inputBuffer div 2)) inputBuffer) =
   resample8kHzTo24kHz pool' inputBuffer"
proof -
  let ?m = "2 * (length inputBuffer div 2)"
  have l: "length (take ?m inputBuffer) div 2 = length inputBuffer div 2" by simp
  show ?thesis unfolding resample8kHzTo24kHz_eq l up_bytes_def samples_take_even ..
qed


lemma upsample_spec_int:
  "upsample_spec s p =
     (let k = p div 3
      in if length s - 1 \<le> k then s ! (length s - 1)
         else max (- 32768) (min 32767 (s ! k + (2 * (s ! (k + 1) - s ! k) * int (p mod 3) + 3) div 6)))"
  unfolding upsample_spec_def Math_round_interp ..

lemma resample8kHzTo24kHz_general:
  "\<exists>out. resample8kHzTo24kHz pool inputBuffer = Inr out
        \<and> length out = 2 * (3 * (length inputBuffer div 2))
        \<and> length (samples out) = 3 * (length inputBuffer div 2)
        \<and> samples out = map (upsample_spec (samples inputBuffer)) [0..<3 * (length inputBuffer div 2)]"
proof -
  let ?n = "3 * (length inputBuffer div 2)"
  have l: "length (up_bytes inputBuffer 0 ?n) = 2 * ?n"
    by (simp add: up_bytes_def length_pairs)
  show ?thesis
    using l samples_up_bytes[of inputBuffer] by (simp add: resample8kHzTo24kHz_eq length_samples)
qed

lemma resample8kHzTo24kHz_pair:
  "\<exists>out. resample8kHzTo24kHz pool [a0, a1, b0, b1] = Inr out
      \<and> samples out =
          [int16_of_bytes a0 a1,
           int16_of_bytes a0 a1 + (2 * (int16_of_bytes b0 b1 - int16_of_bytes a0 a1) + 3) div 6,
           int16_of_bytes a0 a1 + (4 * (int16_of_bytes b0 b1 - int16_of_bytes a0 a1) + 3) div 6,
           int16_of_bytes b0 b1, int16_of_bytes b0 b1, int16_of_bytes b0 b1]"
proof -
  let ?S0 = "int16_of_bytes a0 a1" and ?S1 = "int16_of_bytes b0 b1"
  have s: "samples [a0, a1, b0, b1] = [?S0, ?S1]"
    by (simp add: samples_Cons2 samples_short)
  have n: "3 * (length [a0, a1, b0, b1] div 2) = 6" by simp
  have "map (upsample_spec [?S0, ?S1]) [0..<6] =
          [?S0, ?S0 + (2 * (?S1 - ?S0) + 3) div 6, ?S0 + (4 * (?S1 - ?S0) + 3) div 6, ?S1, ?S1, ?S1]"
    by (rule upsample_spec_pair) (simp_all add: int16_of_bytes_range)
  then show ?thesis
    using resample8kHzTo24kHz_general[of pool "[a0, a1, b0, b1]"] unfolding s n by auto
qed

section \<open>Claims about the resamplers\<close>

text \<open>
  Claim C6. For every input buffer, \<open>resample24kHzTo8kHz\<close> returns, without an error, a
  buffer of exactly \<open>\<lfloor>\<lfloor>len / 2\<rfloor> / 3\<rfloor>\<close> samples whose sample \<open>i\<close> is input sample \<open>3 * i\<close>;
  the input samples of a trailing group of fewer than three are dropped, and a buffer of
  fewer than two bytes gives the empty buffer.
\<close>

theorem resample24kHzTo8kHz_decimates:
  "(\<exists>out. resample24kHzTo8kHz pool inputBuffer = Inr out
        \<and> length out = 2 * (length inputBuffer div 2 div 3)
        \<and> length (samples out) = length inputBuffer div 2 div 3
        \<and> samples out = map (\<lambda>i. samples inputBuffer ! (3 * i)) [0..<length inputBuffer div 2 div 3])
   \<and> resample24kHzTo8kHz pool [] = Inr []
   \<and> resample24kHzTo8kHz pool [b] = Inr []"
proof -
  let ?n = "length inputBuffer div 2 div 3"
  have "3 * ?n \<le> length inputBuffer div 2" by simp
  then have s: "samples (down_bytes inputBuffer 0 ?n) = map (\<lambda>i. samples inputBuffer ! (3 * i)) [0..<?n]"
    by (rule samples_down_bytes)
  have l: "length (down_bytes inputBuffer 0 ?n) = 2 * ?n"
    by (simp add: down_bytes_def length_pairs)
  have e: "resample24kHzTo8kHz pool [] = Inr []" "resample24kHzTo8kHz pool [b] = Inr []"
    by (simp_all add: resample24kHzTo8kHz_eq down_bytes_def)
  show ?thesis
    using s l e by (simp add: resample24kHzTo8kHz_eq length_samples)
qed


theorem resample24kHzTo8kHz_decimates_witness:
  "\<exists>out. resample24kHzTo8kHz (\<lambda>k. 255) [1, 0, 2, 0, 3, 0, 255, 255, 5, 0, 6, 0, 7, 0, 8] = Inr out
      \<and> length out = 4 \<and> samples out = [1, - 1]"
proof -
  let ?buf = "[1, 0, 2, 0, 3, 0, 255, 255, 5, 0, 6, 0, 7, 0, 8] :: buffer"
  have s: "samples ?buf = [1, 2, 3, - 1, 5, 6, 7]"
    by (simp add: samples_Cons2 samples_short int16_of_bytes_def)
  have n: "length ?buf div 2 div 3 = 2" by simp
  have u: "[0..<2] = [0, Suc 0]" by (simp add: upt_rec)
  from resample24kHzTo8kHz_decimates [of "\<lambda>k. 255" ?buf 0]
  obtain out where o: "resample24kHzTo8kHz (\<lambda>k. 255) ?buf = Inr out"
      "length out = 2 * (length ?buf div 2 div 3)"
      "samples out = map (\<lambda>i. samples ?buf ! (3 * i)) [0..<length ?buf div 2 div 3]"
    by blast
  show ?thesis using o unfolding n s u by simp
qed

text \<open>
  Claim C7. For every input buffer with \<open>K\<close> complete samples, \<open>resample8kHzTo24kHz\<close>
  returns, without an error, exactly \<open>3 * K\<close> samples; the sample at position \<open>p\<close> is the
  linear interpolation of the input samples \<open>\<lfloor>p / 3\<rfloor>\<close> and \<open>\<lfloor>p / 3\<rfloor> + 1\<close> at the
  fraction \<open>(p mod 3) / 3\<close>, rounded and clamped to the signed 16-bit range, and the last
  input sample from the last interval on (\<open>upsample_spec\<close>). A buffer of fewer than two
  bytes gives the empty buffer. Two samples \<open>S0\<close>, \<open>S1\<close> give six samples: \<open>S0\<close> at
  position 0, \<open>S1\<close> at position 3, and between them two values that go monotonically
  from \<open>S0\<close> to \<open>S1\<close>.
\<close>

theorem resample8kHzTo24kHz_interpolates:
  "(\<exists>out. resample8kHzTo24kHz pool inputBuffer = Inr out
        \<and> length out = 2 * (3 * (length inputBuffer div 2))
        \<and> length (samples out) = 3 * (length inputBuffer div 2)
        \<and> samples out = map (upsample_spec (samples inputBuffer)) [0..<3 * (length inputBuffer div 2)])
   \<and> resample8kHzTo24kHz pool [] = Inr []
   \<and> resample8kHzTo24kHz pool [b] = Inr []
   \<and> (\<exists>out o1 o2. resample8kHzTo24kHz pool [a0, a1, b0, b1] = Inr out
        \<and> samples out = [int16_of_bytes a0 a1, o1, o2,
                          int16_of_bytes b0 b1, int16_of_bytes b0 b1, int16_of_bytes b0 b1]
        \<and> (int16_of_bytes a0 a1 \<le> o1 \<and> o1 \<le> o2 \<and> o2 \<le> int16_of_bytes b0 b1
           \<or> int16_of_bytes b0 b1 \<le> o2 \<and> o2 \<le> o1 \<and> o1 \<le> int16_of_bytes a0 a1))"
proof -
  have e: "resample8kHzTo24kHz pool [] = Inr []" "resample8kHzTo24kHz pool [b] = Inr []"
    by (simp_all add: resample8kHzTo24kHz_eq up_bytes_def)
  let ?S0 = "int16_of_bytes a0 a1" and ?S1 = "int16_of_bytes b0 b1"
  let ?o1 = "?S0 + (2 * (?S1 - ?S0) + 3) div 6" and ?o2 = "?S0 + (4 * (?S1 - ?S0) + 3) div 6"
  have m: "?S0 \<le> ?o1 \<and> ?o1 \<le> ?o2 \<and> ?o2 \<le> ?S1 \<or> ?S1 \<le> ?o2 \<and> ?o2 \<le> ?o1 \<and> ?o1 \<le> ?S0"
    using thirds_monotone[of "?S1 - ?S0"] by linarith
  obtain out where o: "resample8kHzTo24kHz pool [a0, a1, b0, b1] = Inr out"
      "samples out = [?S0, ?o1, ?o2, ?S1, ?S1, ?S1]"
    using resample8kHzTo24kHz_pair[of pool a0 a1 b0 b1] by blast
  have p: "\<exists>out o1 o2. resample8kHzTo24kHz pool [a0, a1, b0, b1] = Inr out
        \<and> samples out = [?S0, o1, o2, ?S1, ?S1, ?S1]
        \<and> (?S0 \<le> o1 \<and> o1 \<le> o2 \<and> o2 \<le> ?S1 \<or> ?S1 \<le> o2 \<and> o2 \<le> o1 \<and> o1 \<le> ?S0)"
    using o m by blast
  show ?thesis
    using resample8kHzTo24kHz_general[of pool inputBuffer] e p by blast
qed

theorem resample8kHzTo24kHz_interpolates_witness:
  "\<exists>out. resample8kHzTo24kHz (\<lambda>k. 7) [0, 0, 10, 0, 246, 255, 9] = Inr out
      \<and> samples out = [0, 3, 7, 10, 3, - 3, - 10, - 10, - 10]"
proof -
  let ?buf = "[0, 0, 10, 0, 246, 255, 9] :: buffer"
  have s: "samples ?buf = [0, 10, - 10]"
    by (simp add: samples_Cons2 samples_short int16_of_bytes_def)
  have n: "3 * (length ?buf div 2) = 9" by simp
  have u: "[0..<9] = [0, 1, 2, 3, 4, 5, 6, 7, 8::nat]" by (simp add: upt_rec)
  have v: "map (upsample_spec [0, 10, - 10]) [0, 1, 2, 3, 4, 5, 6, 7, 8::nat] =
             [0, 3, 7, 10, 3, - 3, - 10, - 10, - 10]"
    by (simp add: upsample_spec_int)
  from resample8kHzTo24kHz_interpolates [of "\<lambda>k. 7" ?buf 0 0 0 0 0]
  obtain out where o: "resample8kHzTo24kHz (\<lambda>k. 7) ?buf = Inr out"
      "samples out = map (upsample_spec (samples ?buf)) [0..<3 * (length ?buf div 2)]"
    by blast
  show ?thesis using o unfolding n s u v by simp
qed

text \<open>
  Claim C10. For every input buffer, of any length, both resamplers return without an error
  and have initialised their output: the stores into the buffer from \<open>Buffer.allocUnsafe\<close>
  go to each of its byte offsets exactly once (in ascending order), so the result does not
  depend on what the allocated memory held; no iteration takes a fallback branch or skips
  its store; the output has an even number of bytes; and the result is that of the input
  without its trailing odd byte.
\<close>

theorem resamplers_total_initialised:
  "(\<exists>st. resample24kHzTo8kHz_run pool inputBuffer = Inr st
        \<and> resample24kHzTo8kHz pool inputBuffer = Inr (outputBuffer st)
        \<and> writes st = [0..<length (outputBuffer st)]
        \<and> DecimateFallback \<notin> set (taken st)
        \<and> length (outputBuffer st) = 2 * (length inputBuffer div 2 div 3))
   \<and> (\<exists>st. resample8kHzTo24kHz_run pool inputBuffer = Inr st
        \<and> resample8kHzTo24kHz pool inputBuffer = Inr (outputBuffer st)
        \<and> writes st = [0..<length (outputBuffer st)]
        \<and> InterpolateFallback \<notin> set (taken st) \<and> HoldLastSkipped \<notin> set (taken st)
        \<and> length (outputBuffer st) = 2 * (3 * (length inputBuffer div 2)))
   \<and> resample24kHzTo8kHz pool' inputBuffer = resample24kHzTo8kHz pool inputBuffer
   \<and> resample8kHzTo24kHz pool' inputBuffer = resample8kHzTo24kHz pool inputBuffer
   \<and> resample24kHzTo8kHz pool (take (2 * (length inputBuffer div 2)) inputBuffer) =
       resample24kHzTo8kHz pool inputBuffer
   \<and> resample8kHzTo24kHz pool (take (2 * (length inputBuffer div 2)) inputBuffer) =
       resample8kHzTo24kHz pool inputBuffer"
proof -
  have d: "\<exists>st. resample24kHzTo8kHz_run pool inputBuffer = Inr st
        \<and> resample24kHzTo8kHz pool inputBuffer = Inr (outputBuffer st)
        \<and> writes st = [0..<length (outputBuffer st)]
        \<and> DecimateFallback \<notin> set (taken st)
        \<and> length (outputBuffer st) = 2 * (length inputBuffer div 2 div 3)"
    by (simp add: resample24kHzTo8kHz_run_eq resample24kHzTo8kHz_eq down_bytes_def length_pairs)
  have b: "\<And>p. InterpolateFallback \<noteq> up_branch (length inputBuffer div 2) p
              \<and> HoldLastSkipped \<noteq> up_branch (length inputBuffer div 2) p"
    by (simp add: up_branch_def)
  have u: "\<exists>st. resample8kHzTo24kHz_run pool inputBuffer = Inr st
        \<and> resample8kHzTo24kHz pool inputBuffer = Inr (outputBuffer st)
        \<and> writes st = [0..<length (outputBuffer st)]
        \<and> InterpolateFallback \<notin> set (taken st) \<and> HoldLastSkipped \<notin> set (taken st)
        \<and> length (outputBuffer st) = 2 * (3 * (length inputBuffer div 2))"
    using b by (auto simp add: resample8kHzTo24kHz_run_eq resample8kHzTo24kHz_eq up_bytes_def length_pairs)
  have p: "resample24kHzTo8kHz pool' inputBuffer = resample24kHzTo8kHz pool inputBuffer"
      "resample8kHzTo24kHz pool' inputBuffer = resample8kHzTo24kHz pool inputBuffer"
    by (simp_all only: resample24kHzTo8kHz_eq resample8kHzTo24kHz_eq)
  show ?thesis
    using d u p resample24kHzTo8kHz_whole_samples[of pool inputBuffer pool]
      resample8kHzTo24kHz_whole_samples[of pool inputBuffer pool]
    by blast
qed

theorem resamplers_total_initialised_witness:
  "resample24kHzTo8kHz_run (\<lambda>k. 9) [1, 0, 2, 0, 3, 0, 4] =
     Inr \<lparr>outputBuffer = [1, 0], writes = [0, 1], taken = [Decimate]\<rparr>
   \<and> resample8kHzTo24kHz (\<lambda>k. 9) [1, 0, 4] = resample8kHzTo24kHz (\<lambda>k. 0) [1, 0]"
proof -
  let ?buf = "[1, 0, 2, 0, 3, 0, 4] :: buffer"
  from resamplers_total_initialised [of "\<lambda>k. 9" ?buf "\<lambda>k. 0"]
  obtain st where st: "resample24kHzTo8kHz_run (\<lambda>k. 9) ?buf = Inr st"
      "resample24kHzTo8kHz (\<lambda>k. 9) ?buf = Inr (outputBuffer st)"
      "writes st = [0..<length (outputBuffer st)]"
      "DecimateFallback \<notin> set (taken st)"
    by blast
  have a: "resample24kHzTo8kHz_run (\<lambda>k. 9) ?buf =
             Inr \<lparr>outputBuffer = [1, 0], writes = [0, 1], taken = [Decimate]\<rparr>"
    by (simp add: resample24kHzTo8kHz_run_eq down_bytes_def upt_rec)
  have b: "resample8kHzTo24kHz (\<lambda>k. 9) (take (2 * (length [1, 0, 4 :: byte] div 2)) [1, 0, 4]) =
           resample8kHzTo24kHz (\<lambda>k. 9) [1, 0, 4]"
          "resample8kHzTo24kHz (\<lambda>k. 0) [1, 0, 4] = resample8kHzTo24kHz (\<lambda>k. 9) [1, 0, 4]"
    using resamplers_total_initialised [of "\<lambda>k. 9" "[1, 0, 4]" "\<lambda>k. 0"] by blast+
  have c: "resample8kHzTo24kHz (\<lambda>k. 0) [1, 0] = resample8kHzTo24kHz (\<lambda>k. 9) [1, 0]"
    using resamplers_total_initialised [of "\<lambda>k. 9" "[1, 0]" "\<lambda>k. 0"] by blast
  have t: "take (2 * (length [1, 0, 4 :: byte] div 2)) [1, 0, 4 :: byte] = [1, 0]" by simp
  show ?thesis using a b c unfolding t by simp
qed

end
